theory Spec2Isabelle
  imports Main "HOL-Library.Word"
begin

section \<open>xcape: data model\<close>

text \<open>
  The embedding follows \<^verbatim>\<open>xcape.c\<close>. Linked lists (\<^verbatim>\<open>Key_t\<close>, \<^verbatim>\<open>KeyMap_t\<close> chained by
  \<^verbatim>\<open>next\<close>) are HOL lists in chain order. \<^verbatim>\<open>KeyCode\<close> and the XKB group are
  \<^verbatim>\<open>unsigned char\<close>, \<^verbatim>\<open>KeySym\<close> is an \<^verbatim>\<open>unsigned long\<close>. The diagnostic output
  under \<^verbatim>\<open>self->debug\<close> and on \<^verbatim>\<open>stderr\<close> changes no state and is left out.
\<close>

type_synonym KeyCode = "8 word"
type_synonym KeySym = "64 word"

definition NoSymbol :: KeySym where "NoSymbol = 0"

text \<open>Event codes of the core protocol (\<^verbatim>\<open>X.h\<close>) and the record category (\<^verbatim>\<open>record.h\<close>).\<close>

definition KeyPress :: "8 word" where "KeyPress = 2"
definition KeyRelease :: "8 word" where "KeyRelease = 3"
definition ButtonPress :: "8 word" where "ButtonPress = 4"
definition ButtonRelease :: "8 word" where "ButtonRelease = 5"
definition XRecordFromServer :: int where "XRecordFromServer = 0"

text \<open>\<^verbatim>\<open>struct timeval\<close>; both fields are signed 64-bit on the platforms xcape runs on and
  are modelled as unbounded integers (seconds since the epoch do not overflow them).\<close>

record timeval =
  tv_sec :: int
  tv_usec :: int

text \<open>The \<^verbatim>\<open>timersub\<close> and \<^verbatim>\<open>timercmp(a, b, <)\<close> macros of \<^verbatim>\<open>sys/time.h\<close>.\<close>

definition timersub :: "timeval \<Rightarrow> timeval \<Rightarrow> timeval" where
  "timersub a b =
     (let sec = tv_sec a - tv_sec b; usec = tv_usec a - tv_usec b
      in if usec < 0 then \<lparr>tv_sec = sec - 1, tv_usec = usec + 1000000\<rparr>
         else \<lparr>tv_sec = sec, tv_usec = usec\<rparr>)"

definition timercmp_lt :: "timeval \<Rightarrow> timeval \<Rightarrow> bool" where
  "timercmp_lt a b =
     (if tv_sec a = tv_sec b then tv_usec a < tv_usec b else tv_sec a < tv_sec b)"

record KeyMap_t =
  UseKeyCode :: bool
  from_ks :: KeySym
  from_kc :: KeyCode
  to_keys :: "KeyCode list"
  used :: bool
  pressed :: bool
  mouse :: bool
  down_at :: timeval

text \<open>
  \<^verbatim>\<open>XCape_t\<close>, without the connections, the record context, the signal thread and the
  flags. \<^verbatim>\<open>mouse_pressed\<close> is the \<^verbatim>\<open>static\<close> local of \<^verbatim>\<open>intercept\<close>, which lives as
  long as the process and is therefore part of the state.
\<close>

record XCape_t =
  map_tbl :: "KeyMap_t list"
  generated :: "KeyCode list"
  timeout :: timeval
  intended_group :: "8 word"
  previous_group :: "8 word"
  mouse_pressed :: bool

text \<open>The requests xcape sends on its control connection, in the order of the calls.\<close>

datatype xreq =
  XTestFakeKeyEvent KeyCode bool
| XFlush
| XkbLockGroup "8 word"

text \<open>
  What one call of \<^verbatim>\<open>intercept\<close> receives from outside: the intercepted datum
  (\<^verbatim>\<open>data->category\<close>, \<^verbatim>\<open>data->data[0]\<close>, \<^verbatim>\<open>data->data[1]\<close>), the group that the
  \<^verbatim>\<open>XkbGetState\<close> at the top of the function reads, the group that the
  \<^verbatim>\<open>XkbGetState\<close> after \<^verbatim>\<open>XkbLockGroup\<close> reads, and the clock: \<open>tod cb n\<close> is the
  time \<^verbatim>\<open>gettimeofday\<close> stores when \<^verbatim>\<open>handle_key\<close> runs for the rule at position \<open>n\<close>
  of the map (each rule reads the clock at most once per event).
\<close>

record callback =
  category :: int
  key_event :: "8 word"
  key_code :: KeyCode
  group_on_entry :: "8 word"
  group_after_lock :: "8 word"
  tod :: "nat \<Rightarrow> timeval"

text \<open>The lookups answered by the X server and the C library, fixed for a run.\<close>

record xenv =
  XkbKeycodeToKeysym :: "KeyCode \<Rightarrow> KeySym"
  XStringToKeysym :: "string \<Rightarrow> KeySym"
  XKeysymToKeycode :: "KeySym \<Rightarrow> KeyCode"
  strtoul :: "string \<Rightarrow> bool \<times> 64 word"

section \<open>The event path\<close>

text \<open>\<^verbatim>\<open>key_add_key\<close>: walk to the last cell and append one.\<close>

fun key_add_key :: "KeyCode list \<Rightarrow> KeyCode \<Rightarrow> KeyCode list" where
  "key_add_key [] key = [key]"
| "key_add_key (k # keys) key = k # key_add_key keys key"

text \<open>The two \<^verbatim>\<open>for\<close> loops of \<^verbatim>\<open>handle_key\<close> over \<^verbatim>\<open>key->to_keys\<close>: each fakes one key
  event (\<open>is_press\<close> is \<^verbatim>\<open>True\<close> in the first loop, \<^verbatim>\<open>False\<close> in the second) and
  records the code in \<^verbatim>\<open>self->generated\<close>.\<close>

fun fake_loop :: "bool \<Rightarrow> KeyCode list \<Rightarrow> XCape_t \<Rightarrow> XCape_t \<times> xreq list" where
  "fake_loop is_press [] self = (self, [])"
| "fake_loop is_press (k # ks) self =
     (let self' = self\<lparr>generated := key_add_key (generated self) k\<rparr>;
          (self'', reqs) = fake_loop is_press ks self'
      in (self'', XTestFakeKeyEvent k is_press # reqs))"

text \<open>
  \<^verbatim>\<open>handle_key\<close>. \<open>key\<close> points into \<^verbatim>\<open>self->map\<close>; the function touches no other field
  of the map, so the model returns the updated rule beside the updated \<^verbatim>\<open>self\<close> and the
  caller stores it back. \<open>now\<close> is what \<^verbatim>\<open>gettimeofday\<close> stores on this call. Any
  \<open>key_event\<close> other than \<^verbatim>\<open>KeyPress\<close> takes the release branch.
\<close>

definition handle_key ::
  "XCape_t \<Rightarrow> KeyMap_t \<Rightarrow> bool \<Rightarrow> 8 word \<Rightarrow> timeval \<Rightarrow> XCape_t \<times> KeyMap_t \<times> xreq list" where
  "handle_key self key mouse_pressed' key_event' now =
     (if key_event' = KeyPress then
        (let key1 = key\<lparr>pressed := True, down_at := now\<rparr>;
             key2 = (if mouse_pressed' then key1\<lparr>used := True\<rparr> else key1)
         in (self, key2, []))
      else
        (let (self', reqs) =
               (if \<not> used key then
                  (let timev = timersub now (down_at key)
                   in if timercmp_lt timev (timeout self) then
                        (let (self1, reqs1) = fake_loop True (to_keys key) self;
                             (self2, reqs2) = fake_loop False (to_keys key) self1
                         in (self2, reqs1 @ reqs2 @ [XFlush]))
                      else (self, []))
                else (self, []))
         in (self', key\<lparr>used := False, pressed := False\<rparr>, reqs)))"

text \<open>The first loop of \<^verbatim>\<open>intercept\<close>, over \<^verbatim>\<open>self->generated\<close>: \<open>Some\<close> of the list with
  the first cell holding \<open>key_code\<close> unlinked when there is one (the \<^verbatim>\<open>goto exit\<close>),
  \<open>None\<close> when the loop runs to the end.\<close>

fun generated_loop :: "KeyCode list \<Rightarrow> KeyCode \<Rightarrow> KeyCode list option" where
  "generated_loop [] key_code' = None"
| "generated_loop (g # gs) key_code' =
     (if g = key_code' then Some gs
      else (case generated_loop gs key_code' of
              None \<Rightarrow> None
            | Some gs' \<Rightarrow> Some (g # gs')))"

text \<open>The condition under which the second loop of \<^verbatim>\<open>intercept\<close> calls \<^verbatim>\<open>handle_key\<close>
  for a rule.\<close>

definition is_trigger :: "xenv \<Rightarrow> KeyMap_t \<Rightarrow> KeyCode \<Rightarrow> bool" where
  "is_trigger env km key_code' \<longleftrightarrow>
     (UseKeyCode km = False \<and> XkbKeycodeToKeysym env key_code' = from_ks km)
     \<or> (UseKeyCode km = True \<and> key_code' = from_kc km)"

text \<open>The second loop of \<^verbatim>\<open>intercept\<close>, over \<^verbatim>\<open>self->map\<close>; \<open>n\<close> is the position of the
  head of the remaining chain in the whole map.\<close>

fun map_loop ::
  "xenv \<Rightarrow> callback \<Rightarrow> nat \<Rightarrow> KeyMap_t list \<Rightarrow> XCape_t \<Rightarrow> XCape_t \<times> KeyMap_t list \<times> xreq list" where
  "map_loop env cb n [] self = (self, [], [])"
| "map_loop env cb n (km # kms) self =
     (let (self1, km', reqs1) =
            (if is_trigger env km (key_code cb) then
               handle_key self km (mouse_pressed self) (key_event cb) (tod cb n)
             else if pressed km \<and> (key_event cb = KeyPress \<or> key_event cb = ButtonPress) then
               (self, km\<lparr>used := True\<rparr>, [])
             else (self, km, []));
          (self2, kms', reqs2) = map_loop env cb (Suc n) kms self1
      in (self2, km' # kms', reqs1 @ reqs2))"

text \<open>
  \<^verbatim>\<open>intercept\<close>. The result is the new state and the requests sent while the event was
  processed. The \<^verbatim>\<open>goto exit\<close> of the first loop leaves the function before the mouse
  flag, the rules and the group are looked at.
\<close>

definition intercept :: "xenv \<Rightarrow> XCape_t \<Rightarrow> callback \<Rightarrow> XCape_t \<times> xreq list" where
  "intercept env self cb =
     (let current_group = group_on_entry cb;
          body =
            (if category cb = XRecordFromServer then
               (case generated_loop (generated self) (key_code cb) of
                  Some gs \<Rightarrow> Inl (self\<lparr>generated := gs\<rparr>)
                | None \<Rightarrow>
                    (let self1 =
                           (if key_event cb = ButtonPress then self\<lparr>mouse_pressed := True\<rparr>
                            else if key_event cb = ButtonRelease then self\<lparr>mouse_pressed := False\<rparr>
                            else self);
                         (self2, kms, reqs) = map_loop env cb 0 (map_tbl self1) self1
                     in Inr (self2\<lparr>map_tbl := kms\<rparr>, reqs)))
             else Inr (self, []))
      in case body of
           Inl self' \<Rightarrow> (self', [])
         | Inr (self', reqs) \<Rightarrow>
             (let self3 =
                    (if previous_group self' \<noteq> current_group
                     then self'\<lparr>intended_group := current_group\<rparr> else self')
              in (self3\<lparr>previous_group := group_after_lock cb\<rparr>,
                  reqs @ [XkbLockGroup (intended_group self3)])))"

text \<open>The server delivers the events one after the other; \<open>run\<close> is the state after a
  sequence of calls of \<^verbatim>\<open>intercept\<close>.\<close>

fun run :: "xenv \<Rightarrow> XCape_t \<Rightarrow> callback list \<Rightarrow> XCape_t" where
  "run env self [] = self"
| "run env self (cb # cbs) = run env (fst (intercept env self cb)) cbs"

section \<open>The configuration parser\<close>

text \<open>\<^verbatim>\<open>strsep\<close> of the C library with a one-character delimiter set: the token up to the
  first delimiter, and the rest of the string after it, or \<open>None\<close> (the \<^verbatim>\<open>NULL\<close> the
  string pointer is set to) when the string holds no delimiter.\<close>

fun strsep :: "char \<Rightarrow> string \<Rightarrow> string \<times> string option" where
  "strsep d [] = ([], None)"
| "strsep d (c # cs) =
     (if c = d then ([], Some cs)
      else (case strsep d cs of (tok, rest) \<Rightarrow> (c # tok, rest)))"

lemma strsep_shorter: "strsep d s = (tok, Some rest) \<Longrightarrow> length rest < length s"
  by (induction s arbitrary: tok) (auto split: if_splits prod.splits)

text \<open>\<^verbatim>\<open>calloc(1, sizeof(KeyMap_t))\<close>: all fields zero.\<close>

definition calloc_KeyMap_t :: KeyMap_t where
  "calloc_KeyMap_t =
     \<lparr>UseKeyCode = False, from_ks = 0, from_kc = 0, to_keys = [],
      used = False, pressed = False, mouse = False,
      down_at = \<lparr>tv_sec = 0, tv_usec = 0\<rparr>\<rparr>"

text \<open>
  \<^verbatim>\<open>keysym_from_keycode\<close> and \<^verbatim>\<open>keysym_from_string\<close> return \<^verbatim>\<open>void\<close>: on failure they
  print and leave \<open>km\<close> as it is. \<open>strtoul env key\<close> gives whether \<^verbatim>\<open>errno\<close> is still 0
  and the value, which the code stores in a \<^verbatim>\<open>long\<close> (hence the signed comparison) and
  casts to \<^verbatim>\<open>KeyCode\<close>.
\<close>

definition keysym_from_keycode :: "xenv \<Rightarrow> string \<Rightarrow> KeyMap_t \<Rightarrow> KeyMap_t" where
  "keysym_from_keycode env key km =
     (let (errno_zero, parsed_code) = strtoul env key
      in if errno_zero \<and> sint parsed_code \<le> 255
            \<and> XkbKeycodeToKeysym env (ucast parsed_code) \<noteq> NoSymbol
         then km\<lparr>UseKeyCode := True, from_kc := ucast parsed_code\<rparr>
         else km)"

definition keysym_from_string :: "xenv \<Rightarrow> string \<Rightarrow> KeyMap_t \<Rightarrow> KeyMap_t" where
  "keysym_from_string env from km =
     (let ks = XStringToKeysym env from
      in if ks = NoSymbol then km
         else km\<lparr>UseKeyCode := False, from_ks := ks, to_keys := []\<rparr>)"

text \<open>The \<^verbatim>\<open>for(;;)\<close> loop of \<^verbatim>\<open>parse_token\<close> over the substitutes; \<open>None\<close> is
  \<^verbatim>\<open>return NULL\<close>. The test \<^verbatim>\<open>!strncmp(key, "#", 1)\<close> holds when the first character is
  \<^verbatim>\<open>#\<close>, and the \<^verbatim>\<open>strsep(&key, "#")\<close> beside it then moves \<open>key\<close> past that character.\<close>

function to_loop :: "xenv \<Rightarrow> string option \<Rightarrow> KeyMap_t \<Rightarrow> KeyMap_t option" where
  "to_loop env None km = Some km"
| "to_loop env (Some to) km =
     (case strsep CHR ''|'' to of
        (key, to') \<Rightarrow>
          (if key \<noteq> [] \<and> hd key = CHR ''#'' then
             (case strtoul env (tl key) of
                (errno_zero, parsed_code) \<Rightarrow>
                  if \<not> (errno_zero \<and> sint parsed_code \<le> 255
                        \<and> XkbKeycodeToKeysym env (ucast parsed_code) \<noteq> NoSymbol)
                  then None
                  else to_loop env to'
                         (km\<lparr>to_keys := key_add_key (to_keys km) (ucast parsed_code)\<rparr>))
           else
             (let ks = XStringToKeysym env key
              in if ks = NoSymbol then None
                 else (let code = XKeysymToKeycode env ks
                       in if code = 0 then None
                          else to_loop env to'
                                 (km\<lparr>to_keys := key_add_key (to_keys km) code\<rparr>)))))"
  by pat_completeness auto
termination
  by (relation "measure (\<lambda>(env, to, km). case to of None \<Rightarrow> 0 | Some s \<Rightarrow> Suc (length s))")
     (auto split: option.splits dest: strsep_shorter [OF sym])

definition parse_token :: "xenv \<Rightarrow> string \<Rightarrow> KeyMap_t option" where
  "parse_token env token =
     (case strsep CHR ''='' token of
        (from, None) \<Rightarrow> None
      | (from, Some to) \<Rightarrow>
          (let km = calloc_KeyMap_t;
               km' = (if from \<noteq> [] \<and> hd from = CHR ''#''
                      then keysym_from_keycode env (tl from) km
                      else keysym_from_string env from km)
           in to_loop env (Some to) km'))"

text \<open>The loop of \<^verbatim>\<open>parse_mapping\<close>; \<open>rval\<close> is the chain built so far, to whose last
  cell a new rule is linked.\<close>

function mapping_loop :: "xenv \<Rightarrow> string option \<Rightarrow> KeyMap_t list \<Rightarrow> KeyMap_t list" where
  "mapping_loop env None rval = rval"
| "mapping_loop env (Some mapping) rval =
     (case strsep CHR '';'' mapping of
        (token, mapping') \<Rightarrow>
          (case parse_token env token of
             None \<Rightarrow> mapping_loop env mapping' rval
           | Some nkm \<Rightarrow> mapping_loop env mapping' (rval @ [nkm])))"
  by pat_completeness auto
termination
  by (relation "measure (\<lambda>(env, m, rval). case m of None \<Rightarrow> 0 | Some s \<Rightarrow> Suc (length s))")
     (auto split: option.splits dest: strsep_shorter [OF sym])

definition parse_mapping :: "xenv \<Rightarrow> string \<Rightarrow> KeyMap_t list" where
  "parse_mapping env mapping = mapping_loop env (Some mapping) []"

text \<open>The \<^verbatim>\<open>-t\<close> option of \<^verbatim>\<open>main\<close>: a positive number of milliseconds sets the timeout,
  anything else ends the program.\<close>

definition set_timeout :: "int \<Rightarrow> timeval option" where
  "set_timeout ms =
     (if ms > 0 then Some \<lparr>tv_sec = ms div 1000, tv_usec = (ms mod 1000) * 1000\<rparr>
      else None)"

section \<open>Notions used in the statements\<close>

text \<open>An event is \<^emph>\<open>observed\<close> when it reaches the rules: it comes from the server and the
  first loop of \<^verbatim>\<open>intercept\<close> finds no cell of \<^verbatim>\<open>self->generated\<close> with its code.\<close>

definition observed :: "XCape_t \<Rightarrow> callback \<Rightarrow> bool" where
  "observed self cb \<longleftrightarrow>
     category cb = XRecordFromServer \<and> key_code cb \<notin> set (generated self)"

text \<open>The value of \<^verbatim>\<open>mouse_pressed\<close> when the second loop starts.\<close>

definition mouse_after :: "XCape_t \<Rightarrow> callback \<Rightarrow> bool" where
  "mouse_after self cb =
     (if key_event cb = ButtonPress then True
      else if key_event cb = ButtonRelease then False
      else mouse_pressed self)"

text \<open>The requests \<^verbatim>\<open>handle_key\<close> sends for the rule at position \<open>n\<close> while \<^verbatim>\<open>intercept\<close>
  processes \<open>cb\<close> in state \<open>self\<close>: none when the event does not reach the rules or is
  not on the rule's trigger. Lemma \<open>intercept_observed\<close> shows that the requests of an
  observed event are these lists, in rule order, followed by the group lock.\<close>

definition rule_reqs :: "xenv \<Rightarrow> XCape_t \<Rightarrow> callback \<Rightarrow> nat \<Rightarrow> xreq list" where
  "rule_reqs env self cb n =
     (if observed self cb \<and> is_trigger env (map_tbl self ! n) (key_code cb)
      then snd (snd (handle_key self (map_tbl self ! n) (mouse_after self cb)
                       (key_event cb) (tod cb n)))
      else [])"

text \<open>The substitution sequence of a rule: all presses, all releases, one flush.\<close>

definition tap_reqs :: "KeyCode list \<Rightarrow> xreq list" where
  "tap_reqs ks =
     map (\<lambda>k. XTestFakeKeyEvent k True) ks @ map (\<lambda>k. XTestFakeKeyEvent k False) ks @ [XFlush]"

text \<open>The codes of the fake key events among a list of requests, in the order sent.\<close>

fun fake_codes :: "xreq list \<Rightarrow> KeyCode list" where
  "fake_codes [] = []"
| "fake_codes (XTestFakeKeyEvent k b # rs) = k # fake_codes rs"
| "fake_codes (XFlush # rs) = fake_codes rs"
| "fake_codes (XkbLockGroup g # rs) = fake_codes rs"

text \<open>The test \<^verbatim>\<open>handle_key\<close> makes before it injects.\<close>

definition is_tap :: "timeval \<Rightarrow> KeyMap_t \<Rightarrow> 8 word \<Rightarrow> timeval \<Rightarrow> bool" where
  "is_tap tmo key ke now \<longleftrightarrow>
     ke \<noteq> KeyPress \<and> \<not> used key \<and> timercmp_lt (timersub now (down_at key)) tmo"

text \<open>One pass of the body of the second loop of \<^verbatim>\<open>intercept\<close>, seen from one rule: its
  next state, the requests sent for it and the codes appended to the ledger for it.\<close>

definition km_next :: "xenv \<Rightarrow> callback \<Rightarrow> bool \<Rightarrow> nat \<Rightarrow> KeyMap_t \<Rightarrow> KeyMap_t" where
  "km_next env cb m n km =
     (if is_trigger env km (key_code cb) then
        (if key_event cb = KeyPress
         then km\<lparr>pressed := True, down_at := tod cb n, used := used km \<or> m\<rparr>
         else km\<lparr>used := False, pressed := False\<rparr>)
      else if pressed km \<and> (key_event cb = KeyPress \<or> key_event cb = ButtonPress)
      then km\<lparr>used := True\<rparr>
      else km)"

definition km_reqs :: "xenv \<Rightarrow> callback \<Rightarrow> timeval \<Rightarrow> nat \<Rightarrow> KeyMap_t \<Rightarrow> xreq list" where
  "km_reqs env cb tmo n km =
     (if is_trigger env km (key_code cb) \<and> is_tap tmo km (key_event cb) (tod cb n)
      then tap_reqs (to_keys km) else [])"

definition km_gen :: "xenv \<Rightarrow> callback \<Rightarrow> timeval \<Rightarrow> nat \<Rightarrow> KeyMap_t \<Rightarrow> KeyCode list" where
  "km_gen env cb tmo n km =
     (if is_trigger env km (key_code cb) \<and> is_tap tmo km (key_event cb) (tod cb n)
      then to_keys km @ to_keys km else [])"

text \<open>A \<^verbatim>\<open>struct timeval\<close> as a number of microseconds, and the range of \<^verbatim>\<open>tv_usec\<close> that
  \<^verbatim>\<open>gettimeofday\<close> and \<^verbatim>\<open>main\<close> produce.\<close>

definition usecs :: "timeval \<Rightarrow> int" where
  "usecs tv = tv_sec tv * 1000000 + tv_usec tv"

definition tv_ok :: "timeval \<Rightarrow> bool" where
  "tv_ok tv \<longleftrightarrow> 0 \<le> tv_usec tv \<and> tv_usec tv < 1000000"

text \<open>In every state xcape reaches, a rule that is pressed while a mouse button is held
  has been marked used (lemma \<open>mouse_inv_run\<close>).\<close>

definition mouse_inv :: "XCape_t \<Rightarrow> bool" where
  "mouse_inv s \<longleftrightarrow> (mouse_pressed s \<longrightarrow> (\<forall>km\<in>set (map_tbl s). pressed km \<longrightarrow> used km))"

section \<open>A concrete setting\<close>

text \<open>A keyboard with Escape on code 9, Control\_L on 37, the letter a on 38 and Super\_L
  on 133, the default rule \<^verbatim>\<open>Control_L=Escape\<close> and the default timeout of 500 ms.
  \<open>ex_cb ke kc us\<close> is an event from the server whose clock readings are \<open>us\<close>
  microseconds after second 1000.\<close>

definition ex_env :: xenv where
  "ex_env =
     \<lparr>XkbKeycodeToKeysym =
        (\<lambda>kc. if kc = 9 then 0xff1b else if kc = 37 then 0xffe3
              else if kc = 38 then 0x61 else if kc = 133 then 0xffeb else 0),
      XStringToKeysym =
        (\<lambda>s. if s = ''Escape'' then 0xff1b else if s = ''Control_L'' then 0xffe3
              else if s = ''a'' then 0x61 else if s = ''Super_L'' then 0xffeb else 0),
      XKeysymToKeycode =
        (\<lambda>ks. if ks = 0xff1b then 9 else if ks = 0xffe3 then 37
              else if ks = 0x61 then 38 else if ks = 0xffeb then 133 else 0),
      strtoul = (\<lambda>s. if s = ''9'' then (True, 9) else if s = ''37'' then (True, 37)
              else if s = ''300'' then (True, 300) else (True, 0))\<rparr>"

definition ex_rule :: KeyMap_t where
  "ex_rule =
     \<lparr>UseKeyCode = False, from_ks = 0xffe3, from_kc = 0, to_keys = [9],
      used = False, pressed = False, mouse = False,
      down_at = \<lparr>tv_sec = 0, tv_usec = 0\<rparr>\<rparr>"

definition ex_self :: XCape_t where
  "ex_self =
     \<lparr>map_tbl = [ex_rule], generated = [], timeout = \<lparr>tv_sec = 0, tv_usec = 500000\<rparr>,
      intended_group = 0, previous_group = 0, mouse_pressed = False\<rparr>"

definition ex_cb :: "8 word \<Rightarrow> KeyCode \<Rightarrow> int \<Rightarrow> callback" where
  "ex_cb ke kc us =
     \<lparr>category = 0, key_event = ke, key_code = kc, group_on_entry = 0, group_after_lock = 0,
      tod = (\<lambda>n. \<lparr>tv_sec = 1000 + us div 1000000, tv_usec = us mod 1000000\<rparr>)\<rparr>"

section \<open>The loops in closed form\<close>

lemma key_add_key_append: "key_add_key keys key = keys @ [key]"
  by (induction keys) simp_all

lemma generated_loop_first:
  "c \<notin> set xs \<Longrightarrow> generated_loop (xs @ c # ys) c = Some (xs @ ys)"
  by (induction xs) auto

lemma generated_loop_None: "generated_loop gs c = None \<longleftrightarrow> c \<notin> set gs"
  by (induction gs) (auto split: option.splits)

lemma generated_loop_remove1:
  "c \<in> set gs \<Longrightarrow> generated_loop gs c = Some (remove1 c gs)"
  by (induction gs) (auto split: option.splits simp: generated_loop_None)

lemma fake_loop_eq:
  "fake_loop b ks self =
     (self\<lparr>generated := generated self @ ks\<rparr>, map (\<lambda>k. XTestFakeKeyEvent k b) ks)"
  by (induction ks arbitrary: self) (simp_all add: key_add_key_append)

lemma handle_key_eq:
  "handle_key self key m ke now =
     (if ke = KeyPress then (self, key\<lparr>pressed := True, down_at := now, used := used key \<or> m\<rparr>, [])
      else if is_tap (timeout self) key ke now
      then (self\<lparr>generated := generated self @ to_keys key @ to_keys key\<rparr>,
            key\<lparr>used := False, pressed := False\<rparr>, tap_reqs (to_keys key))
      else (self, key\<lparr>used := False, pressed := False\<rparr>, []))"
  by (auto simp: handle_key_def is_tap_def tap_reqs_def fake_loop_eq Let_def)

lemma map_loop_body:
  "(if is_trigger env km (key_code cb) then
      handle_key self km (mouse_pressed self) (key_event cb) (tod cb n)
    else if pressed km \<and> (key_event cb = KeyPress \<or> key_event cb = ButtonPress) then
      (self, km\<lparr>used := True\<rparr>, [])
    else (self, km, []))
   = (self\<lparr>generated := generated self @ km_gen env cb (timeout self) n km\<rparr>,
      km_next env cb (mouse_pressed self) n km,
      km_reqs env cb (timeout self) n km)"
  by (simp add: handle_key_eq km_next_def km_reqs_def km_gen_def is_tap_def)

lemma map_loop_eq:
  "map_loop env cb n kms self =
     (self\<lparr>generated := generated self
               @ concat (map (\<lambda>(j, km). km_gen env cb (timeout self) j km) (enumerate n kms))\<rparr>,
      map (\<lambda>(j, km). km_next env cb (mouse_pressed self) j km) (enumerate n kms),
      concat (map (\<lambda>(j, km). km_reqs env cb (timeout self) j km) (enumerate n kms)))"
proof (induction kms arbitrary: n self)
  case Nil
  show ?case by simp
next
  case (Cons km kms)
  show ?case
    unfolding map_loop.simps map_loop_body
    by (simp add: Cons.IH)
qed

lemma enumerate_map_nth:
  "map (\<lambda>(j, x). f j x) (enumerate 0 xs) = map (\<lambda>j. f j (xs ! j)) [0..<length xs]"
  by (rule nth_equalityI) (simp_all add: nth_enumerate_eq)

lemma rule_reqs_eq:
  "rule_reqs env self cb n =
     (if observed self cb then km_reqs env cb (timeout self) n (map_tbl self ! n) else [])"
  by (simp add: rule_reqs_def km_reqs_def handle_key_eq is_tap_def)

lemma intercept_observed:
  assumes "observed self cb"
  shows "intercept env self cb =
     (self\<lparr>mouse_pressed := mouse_after self cb,
           generated := generated self
             @ concat (map (\<lambda>j. km_gen env cb (timeout self) j (map_tbl self ! j))
                           [0..<length (map_tbl self)]),
           map_tbl := map (\<lambda>j. km_next env cb (mouse_after self cb) j (map_tbl self ! j))
                           [0..<length (map_tbl self)],
           intended_group := (if previous_group self \<noteq> group_on_entry cb
                              then group_on_entry cb else intended_group self),
           previous_group := group_after_lock cb\<rparr>,
      concat (map (rule_reqs env self cb) [0..<length (map_tbl self)])
        @ [XkbLockGroup (if previous_group self \<noteq> group_on_entry cb
                         then group_on_entry cb else intended_group self)])"
proof -
  have g: "generated_loop (generated self) (key_code cb) = None"
    using assms by (simp add: observed_def generated_loop_None)
  have c: "category cb = XRecordFromServer"
    using assms by (simp add: observed_def)
  have r: "map (rule_reqs env self cb) [0..<length (map_tbl self)]
         = map (\<lambda>j. km_reqs env cb (timeout self) j (map_tbl self ! j)) [0..<length (map_tbl self)]"
    using assms by (simp add: rule_reqs_eq)
  show ?thesis
    unfolding r
    by (simp add: intercept_def Let_def g c map_loop_eq enumerate_map_nth mouse_after_def)
qed

lemma intercept_echo:
  assumes "category cb = XRecordFromServer" and "key_code cb \<in> set (generated self)"
  shows "intercept env self cb =
           (self\<lparr>generated := remove1 (key_code cb) (generated self)\<rparr>, [])"
  using assms by (simp add: intercept_def generated_loop_remove1)

lemma intercept_not_server:
  assumes "category cb \<noteq> XRecordFromServer"
  shows "intercept env self cb =
     (self\<lparr>intended_group := (if previous_group self \<noteq> group_on_entry cb
                              then group_on_entry cb else intended_group self),
           previous_group := group_after_lock cb\<rparr>,
      [XkbLockGroup (if previous_group self \<noteq> group_on_entry cb
                         then group_on_entry cb else intended_group self)])"
  using assms by (simp add: intercept_def Let_def)

lemma timercmp_timersub:
  assumes "tv_ok a" and "tv_ok b" and "tv_ok t"
  shows "timercmp_lt (timersub a b) t \<longleftrightarrow> usecs a - usecs b < usecs t"
  using assms unfolding tv_ok_def usecs_def timercmp_lt_def timersub_def Let_def
  by (auto split: if_splits)

lemma step_rule:
  assumes "i < length (map_tbl s)"
  shows "map_tbl (fst (intercept env s cb)) ! i =
           (if observed s cb then km_next env cb (mouse_after s cb) i (map_tbl s ! i)
            else map_tbl s ! i)"
proof (cases "observed s cb")
  case True
  then show ?thesis using assms by (simp add: intercept_observed)
next
  case False
  then show ?thesis
    by (cases "category cb = XRecordFromServer")
       (simp_all add: observed_def intercept_echo intercept_not_server)
qed

lemma step_static:
  "length (map_tbl (fst (intercept env s cb))) = length (map_tbl s)"
  "timeout (fst (intercept env s cb)) = timeout s"
proof -
  consider "observed s cb"
    | "category cb = XRecordFromServer" "key_code cb \<in> set (generated s)"
    | "category cb \<noteq> XRecordFromServer"
    by (auto simp: observed_def)
  then have "length (map_tbl (fst (intercept env s cb))) = length (map_tbl s)
           \<and> timeout (fst (intercept env s cb)) = timeout s"
    by cases (simp_all add: intercept_observed intercept_echo intercept_not_server)
  then show "length (map_tbl (fst (intercept env s cb))) = length (map_tbl s)"
    and "timeout (fst (intercept env s cb)) = timeout s"
    by simp_all
qed

lemma km_next_static:
  "is_trigger env (km_next env cb m n km) c = is_trigger env km c"
  "to_keys (km_next env cb m n km) = to_keys km"
  by (simp_all add: km_next_def is_trigger_def)

lemma run_append: "run env s (xs @ ys) = run env (run env s xs) ys"
  by (induction xs arbitrary: s) simp_all

lemma run_static:
  shows "length (map_tbl (run env s cbs)) = length (map_tbl s)"
    and "timeout (run env s cbs) = timeout s"
  by (induction cbs arbitrary: s) (simp_all add: step_static)

lemma run_rule_static:
  assumes "i < length (map_tbl s)"
  shows "is_trigger env (map_tbl (run env s cbs) ! i) c = is_trigger env (map_tbl s ! i) c"
    and "to_keys (map_tbl (run env s cbs) ! i) = to_keys (map_tbl s ! i)"
  using assms
  by (induction cbs arbitrary: s) (simp_all add: step_static step_rule km_next_static)

lemma run_used_sticky:
  assumes "i < length (map_tbl s)"
    and "pressed (map_tbl s ! i)" and "used (map_tbl s ! i)"
    and "\<forall>cb\<in>set cbs. is_trigger env (map_tbl s ! i) (key_code cb) \<longrightarrow> key_event cb = KeyPress"
  shows "pressed (map_tbl (run env s cbs) ! i) \<and> used (map_tbl (run env s cbs) ! i)"
  using assms
proof (induction cbs arbitrary: s)
  case Nil
  then show ?case by simp
next
  case (Cons cb cbs)
  let ?s = "fst (intercept env s cb)"
  have k: "is_trigger env (map_tbl s ! i) (key_code cb) \<longrightarrow> key_event cb = KeyPress"
    using Cons.prems(4) by simp
  have "pressed (map_tbl ?s ! i) \<and> used (map_tbl ?s ! i)"
    using Cons.prems(1-3) k by (simp add: step_rule km_next_def)
  moreover have "\<forall>c. is_trigger env (map_tbl ?s ! i) c = is_trigger env (map_tbl s ! i) c"
    using Cons.prems(1) by (simp add: step_rule km_next_static)
  ultimately show ?case
    using Cons.IH [of ?s] Cons.prems(1,4) by (simp add: step_static)
qed

lemma run_pressed_sticky:
  assumes "i < length (map_tbl s)"
    and "pressed (map_tbl s ! i)"
    and "\<forall>cb\<in>set cbs. is_trigger env (map_tbl s ! i) (key_code cb) \<longrightarrow> key_event cb = KeyPress"
  shows "pressed (map_tbl (run env s cbs) ! i)"
  using assms
proof (induction cbs arbitrary: s)
  case Nil
  then show ?case by simp
next
  case (Cons cb cbs)
  let ?s = "fst (intercept env s cb)"
  have k: "is_trigger env (map_tbl s ! i) (key_code cb) \<longrightarrow> key_event cb = KeyPress"
    using Cons.prems(3) by simp
  have "pressed (map_tbl ?s ! i)"
    using Cons.prems(1,2) k by (simp add: step_rule km_next_def)
  moreover have "\<forall>c. is_trigger env (map_tbl ?s ! i) c = is_trigger env (map_tbl s ! i) c"
    using Cons.prems(1) by (simp add: step_rule km_next_static)
  ultimately show ?case
    using Cons.IH [of ?s] Cons.prems(1,3) by (simp add: step_static)
qed

lemma run_untouched:
  assumes "i < length (map_tbl s)"
    and "\<forall>cb\<in>set cbs. \<not> is_trigger env (map_tbl s ! i) (key_code cb)
            \<and> key_event cb \<noteq> KeyPress \<and> key_event cb \<noteq> ButtonPress"
  shows "map_tbl (run env s cbs) ! i = map_tbl s ! i"
  using assms
proof (induction cbs arbitrary: s)
  case Nil
  then show ?case by simp
next
  case (Cons cb cbs)
  let ?s = "fst (intercept env s cb)"
  have "map_tbl ?s ! i = map_tbl s ! i"
    using Cons.prems by (simp add: step_rule km_next_def)
  then show ?case
    using Cons.IH [of ?s] Cons.prems by (simp add: step_static)
qed

lemma run_down_at:
  assumes "i < length (map_tbl s)"
    and "\<forall>cb\<in>set cbs. \<not> is_trigger env (map_tbl s ! i) (key_code cb)"
  shows "down_at (map_tbl (run env s cbs) ! i) = down_at (map_tbl s ! i)"
  using assms
proof (induction cbs arbitrary: s)
  case Nil
  then show ?case by simp
next
  case (Cons cb cbs)
  let ?s = "fst (intercept env s cb)"
  have "down_at (map_tbl ?s ! i) = down_at (map_tbl s ! i)"
    using Cons.prems by (simp add: step_rule km_next_def)
  moreover have "\<forall>c. is_trigger env (map_tbl ?s ! i) c = is_trigger env (map_tbl s ! i) c"
    using Cons.prems(1) by (simp add: step_rule km_next_static)
  ultimately show ?case
    using Cons.IH [of ?s] Cons.prems by (simp add: step_static)
qed

lemma is_trigger_upd:
  "is_trigger env (km\<lparr>down_at := t\<rparr>) c = is_trigger env km c"
  "is_trigger env (km\<lparr>pressed := b\<rparr>) c = is_trigger env km c"
  "is_trigger env (km\<lparr>used := b\<rparr>) c = is_trigger env km c"
  by (simp_all add: is_trigger_def)

lemma step_press:
  assumes "i < length (map_tbl s)" and "observed s p" and "key_event p = KeyPress"
    and "is_trigger env (map_tbl s ! i) (key_code p)"
  shows "map_tbl (fst (intercept env s p)) ! i
           = (map_tbl s ! i)\<lparr>pressed := True, down_at := tod p i,
                             used := used (map_tbl s ! i) \<or> mouse_pressed s\<rparr>"
  using assms
  by (simp add: step_rule km_next_def mouse_after_def KeyPress_def ButtonPress_def
      ButtonRelease_def)

lemma rule_reqs_used:
  assumes "used (map_tbl s ! i)"
  shows "rule_reqs env s r i = []"
  using assms by (simp add: rule_reqs_eq km_reqs_def is_tap_def)

lemma upt_split: "i < n \<Longrightarrow> [0..<n] = [0..<i] @ i # [Suc i..<n]"
  using upt_add_eq_append [of 0 i "n - i"] by (simp add: upt_conv_Cons)

lemma mouse_inv_step:
  assumes "mouse_inv s"
  shows "mouse_inv (fst (intercept env s cb))"
proof -
  consider "observed s cb"
    | "category cb = XRecordFromServer" "key_code cb \<in> set (generated s)"
    | "category cb \<noteq> XRecordFromServer"
    by (auto simp: observed_def)
  then show ?thesis
  proof cases
    case 1
    have "pressed (km_next env cb (mouse_after s cb) j (map_tbl s ! j))
            \<longrightarrow> used (km_next env cb (mouse_after s cb) j (map_tbl s ! j))"
      if "mouse_after s cb" and "j < length (map_tbl s)" for j
    proof -
      have "mouse_pressed s \<longrightarrow> pressed (map_tbl s ! j) \<longrightarrow> used (map_tbl s ! j)"
        using assms that(2) by (simp add: mouse_inv_def)
      then show ?thesis
        using that(1)
        by (auto simp: km_next_def mouse_after_def KeyPress_def ButtonPress_def
            ButtonRelease_def split: if_splits)
    qed
    then show ?thesis
      using 1 by (simp add: intercept_observed mouse_inv_def)
  next
    case 2
    then show ?thesis using assms by (simp add: intercept_echo mouse_inv_def)
  next
    case 3
    then show ?thesis using assms by (simp add: intercept_not_server mouse_inv_def)
  qed
qed

lemma mouse_inv_run: "mouse_inv s \<Longrightarrow> mouse_inv (run env s cbs)"
  by (induction cbs arbitrary: s) (simp_all add: mouse_inv_step)

lemma fake_codes_append: "fake_codes (a @ b) = fake_codes a @ fake_codes b"
  by (induction a rule: fake_codes.induct) simp_all

lemma fake_codes_map: "fake_codes (map (\<lambda>k. XTestFakeKeyEvent k b) ks) = ks"
  by (induction ks) simp_all

lemma fake_codes_tap: "fake_codes (tap_reqs ks) = ks @ ks"
  by (simp add: tap_reqs_def fake_codes_append fake_codes_map)

lemma fake_codes_km: "fake_codes (km_reqs env cb tmo n km) = km_gen env cb tmo n km"
  by (simp add: km_reqs_def km_gen_def fake_codes_tap)

lemma fake_codes_concat:
  "fake_codes (concat (map f js)) = concat (map (\<lambda>j. fake_codes (f j)) js)"
  by (induction js) (simp_all add: fake_codes_append)

lemma intercept_records:
  assumes "observed s r"
  shows "fake_codes (snd (intercept env s r))
           = concat (map (\<lambda>j. km_gen env r (timeout s) j (map_tbl s ! j))
                         [0..<length (map_tbl s)])"
    and "generated (fst (intercept env s r))
           = generated s @ fake_codes (snd (intercept env s r))"
proof -
  have r: "map (rule_reqs env s r) [0..<length (map_tbl s)]
         = map (\<lambda>j. km_reqs env r (timeout s) j (map_tbl s ! j)) [0..<length (map_tbl s)]"
    using assms by (simp add: rule_reqs_eq)
  show f: "fake_codes (snd (intercept env s r))
           = concat (map (\<lambda>j. km_gen env r (timeout s) j (map_tbl s ! j))
                         [0..<length (map_tbl s)])"
    using assms
    by (simp add: intercept_observed r fake_codes_append fake_codes_concat fake_codes_km)
  show "generated (fst (intercept env s r))
           = generated s @ fake_codes (snd (intercept env s r))"
    unfolding f using assms by (simp add: intercept_observed)
qed

lemma count_list_remove1:
  "count_list (remove1 x xs) y
     = (if x = y \<and> x \<in> set xs then count_list xs y - 1 else count_list xs y)"
  by (induction xs) auto

lemma ledger_count_step:
  "count_list (generated s) c
     \<le> count_list (generated (fst (intercept env s e))) c
       + (if category e = XRecordFromServer \<and> key_code e = c then 1 else 0)"
proof -
  consider "observed s e"
    | "category e = XRecordFromServer" "key_code e \<in> set (generated s)"
    | "category e \<noteq> XRecordFromServer"
    by (auto simp: observed_def)
  then show ?thesis
  proof cases
    case 1
    then show ?thesis by (simp add: intercept_observed)
  next
    case 2
    then show ?thesis by (simp add: intercept_echo count_list_remove1)
  next
    case 3
    then show ?thesis by (simp add: intercept_not_server)
  qed
qed

lemma ledger_count_run:
  "count_list (generated s) c
     \<le> count_list (generated (run env s es)) c
       + length (filter (\<lambda>e. category e = XRecordFromServer \<and> key_code e = c) es)"
proof (induction es arbitrary: s)
  case Nil
  show ?case by simp
next
  case (Cons e es)
  show ?case
    using ledger_count_step [of s c env e] Cons.IH [of "fst (intercept env s e)"]
    by (simp split: if_splits)
qed

lemma intercept_consumes_first:
  assumes "category cb = XRecordFromServer"
    and "generated self = xs @ key_code cb # ys"
    and "key_code cb \<notin> set xs"
  shows "intercept env self cb = (self\<lparr>generated := xs @ ys\<rparr>, [])"
  using assms by (simp add: intercept_def generated_loop_first)

text \<open>The definitions a concrete run unfolds.\<close>

lemmas ex_defs = ex_env_def ex_rule_def ex_self_def ex_cb_def
  KeyPress_def KeyRelease_def ButtonPress_def ButtonRelease_def XRecordFromServer_def

lemmas eval_defs = intercept_def handle_key_def is_trigger_def timersub_def timercmp_lt_def
  observed_def rule_reqs_def mouse_after_def tv_ok_def usecs_def tap_reqs_def Let_def

section \<open>The ledger\<close>

text \<open>
  C2. Recording and consuming, in one statement.
  \<^item> A server event \<open>cb\<close> whose code is in the ledger removes the oldest cell with that
    code and nothing else: the cells before and after it stay (a second cell with the
    same code among them), no rule changes, the mouse flag and the groups are as they
    were, and no request is sent.
  \<^item> The fake key events sent while an observed event \<open>r\<close> is processed are, rule by rule,
    the codes of every rule that confirms a tap, once for the press pass and once for the
    release pass, and \<^verbatim>\<open>handle_key\<close> appends exactly these codes, in this order, to the
    end of the ledger.
  \<^item> Whatever events \<open>es\<close> follow, as long as fewer server events with code \<open>c\<close> have
    arrived than the ledger held cells with \<open>c\<close> after \<open>r\<close>, the next server event \<open>e\<close>
    with code \<open>c\<close> finds a cell, and is consumed in the same way: an injected
    substitution does not reach the rules.
\<close>

theorem injected_echo_consumed:
  assumes "category cb = XRecordFromServer"
    and "generated self = xs @ key_code cb # ys" and "key_code cb \<notin> set xs"
    and "observed s r"
    and "length (filter (\<lambda>e. category e = XRecordFromServer \<and> key_code e = c) es)
           < count_list (generated s @ fake_codes (snd (intercept env s r))) c"
    and "category e = XRecordFromServer" and "key_code e = c"
  shows "intercept env self cb = (self\<lparr>generated := xs @ ys\<rparr>, [])
       \<and> fake_codes (snd (intercept env s r))
           = concat (map (\<lambda>j. if is_trigger env (map_tbl s ! j) (key_code r)
                                  \<and> key_event r \<noteq> KeyPress \<and> \<not> used (map_tbl s ! j)
                                  \<and> timercmp_lt (timersub (tod r j) (down_at (map_tbl s ! j)))
                                       (timeout s)
                               then to_keys (map_tbl s ! j) @ to_keys (map_tbl s ! j) else [])
                         [0..<length (map_tbl s)])
       \<and> generated (fst (intercept env s r))
           = generated s @ fake_codes (snd (intercept env s r))
       \<and> (\<exists>xs' ys'. generated (run env (fst (intercept env s r)) es) = xs' @ c # ys'
             \<and> c \<notin> set xs'
             \<and> intercept env (run env (fst (intercept env s r)) es) e
                 = ((run env (fst (intercept env s r)) es)\<lparr>generated := xs' @ ys'\<rparr>, []))"
proof -
  let ?s1 = "fst (intercept env s r)"
  let ?S = "run env ?s1 es"
  let ?k = "length (filter (\<lambda>e. category e = XRecordFromServer \<and> key_code e = c) es)"
  have a: "intercept env self cb = (self\<lparr>generated := xs @ ys\<rparr>, [])"
    using assms(1-3) by (rule intercept_consumes_first)
  have b: "generated ?s1 = generated s @ fake_codes (snd (intercept env s r))"
    using assms(4) by (rule intercept_records(2))
  have b': "fake_codes (snd (intercept env s r))
           = concat (map (\<lambda>j. if is_trigger env (map_tbl s ! j) (key_code r)
                                  \<and> key_event r \<noteq> KeyPress \<and> \<not> used (map_tbl s ! j)
                                  \<and> timercmp_lt (timersub (tod r j) (down_at (map_tbl s ! j)))
                                       (timeout s)
                               then to_keys (map_tbl s ! j) @ to_keys (map_tbl s ! j) else [])
                         [0..<length (map_tbl s)])"
    using intercept_records(1) [OF assms(4), of env] by (simp add: km_gen_def is_tap_def)
  have "?k < count_list (generated ?s1) c"
    using assms(5) b by simp
  also have "\<dots> \<le> count_list (generated ?S) c + ?k"
    by (rule ledger_count_run)
  finally have "0 < count_list (generated ?S) c"
    by simp
  then have "c \<in> set (generated ?S)"
    using count_list_0_iff [of "generated ?S" c] by auto
  then obtain xs' ys' where d: "generated ?S = xs' @ c # ys'" "c \<notin> set xs'"
    using split_list_first by fastforce
  have "intercept env ?S e = (?S\<lparr>generated := xs' @ ys'\<rparr>, [])"
    using assms(6,7) d by (simp add: intercept_consumes_first)
  with a b b' d show ?thesis
    by blast
qed

theorem injected_echo_consumed_witness:
  "intercept ex_env (ex_self\<lparr>generated := [37, 9, 9]\<rparr>) (ex_cb KeyPress 9 0)
     = (ex_self\<lparr>generated := [37, 9]\<rparr>, [])
   \<and> snd (intercept ex_env (run ex_env ex_self [ex_cb KeyPress 37 0])
            (ex_cb KeyRelease 37 100000))
       = [XTestFakeKeyEvent 9 True, XTestFakeKeyEvent 9 False, XFlush, XkbLockGroup 0]
   \<and> generated (run ex_env ex_self [ex_cb KeyPress 37 0, ex_cb KeyRelease 37 100000]) = [9, 9]
   \<and> intercept ex_env
        (run ex_env ex_self
           [ex_cb KeyPress 37 0, ex_cb KeyRelease 37 100000, ex_cb KeyPress 9 110000])
        (ex_cb KeyRelease 9 120000)
       = ((run ex_env ex_self
             [ex_cb KeyPress 37 0, ex_cb KeyRelease 37 100000, ex_cb KeyPress 9 110000])
            \<lparr>generated := []\<rparr>, [])
   \<and> map_tbl (run ex_env ex_self
        [ex_cb KeyPress 37 0, ex_cb KeyRelease 37 100000, ex_cb KeyPress 9 110000,
         ex_cb KeyRelease 9 120000])
       = map_tbl (run ex_env ex_self [ex_cb KeyPress 37 0, ex_cb KeyRelease 37 100000])"
  using injected_echo_consumed [where cb = "ex_cb KeyPress 9 0"
      and self = "ex_self\<lparr>generated := [37, 9, 9]\<rparr>" and xs = "[37]" and ys = "[9]"
      and env = ex_env and s = "run ex_env ex_self [ex_cb KeyPress 37 0]"
      and r = "ex_cb KeyRelease 37 100000" and c = 9 and es = "[ex_cb KeyPress 9 110000]"
      and e = "ex_cb KeyRelease 9 120000"]
  by (simp add: ex_defs eval_defs)

text \<open>
  C10. The ledger holds codes only, and the first loop of \<^verbatim>\<open>intercept\<close> compares
  nothing but the code: whatever the kind \<open>ke\<close> of a server event whose code is in the
  ledger, one cell is consumed, no rule and no group is touched and no request is sent.
\<close>

theorem ledger_ignores_kind:
  assumes "category cb = XRecordFromServer"
    and "key_code cb \<in> set (generated self)"
  shows "intercept env self (cb\<lparr>key_event := ke\<rparr>)
           = (self\<lparr>generated := remove1 (key_code cb) (generated self)\<rparr>, [])"
  using assms by (simp add: intercept_echo)

theorem ledger_ignores_kind_witness:
  "intercept ex_env (ex_self\<lparr>generated := [9]\<rparr>) (ex_cb KeyRelease 9 0)
     = (ex_self, [])
   \<and> intercept ex_env (ex_self\<lparr>generated := [9]\<rparr>) (ex_cb ButtonPress 9 0)
     = (ex_self, [])"
  using ledger_ignores_kind [of "ex_cb KeyPress 9 0" "ex_self\<lparr>generated := [9]\<rparr>" ex_env KeyRelease]
    ledger_ignores_kind [of "ex_cb KeyPress 9 0" "ex_self\<lparr>generated := [9]\<rparr>" ex_env ButtonPress]
  by (simp add: ex_cb_def ex_self_def XRecordFromServer_def)

section \<open>Taps\<close>

text \<open>
  C1, as amended. Take the rule at position \<open>i\<close>, not marked used, and an observed press
  \<open>p\<close> of its trigger at a moment when no mouse button is held. Let the events \<open>cbs\<close> that
  follow be neither key nor button presses nor events on the trigger, and let \<open>r\<close> be an
  observed release of the trigger less than the timeout after \<open>p\<close>. Then the requests
  sent for the rule while \<open>r\<close> is processed are the presses of all its codes in rule
  order, the releases of the same codes in the same order, and a flush; the requests of
  the whole event are those of the rules before \<open>i\<close>, this sequence once, those of the
  rules after \<open>i\<close>, and the group lock.
\<close>

theorem clean_tap_injects_sequence:
  assumes "i < length (map_tbl s)"
    and "observed s p" and "key_event p = KeyPress"
    and "is_trigger env (map_tbl s ! i) (key_code p)"
    and "\<not> mouse_pressed s" and "\<not> used (map_tbl s ! i)"
    and "\<forall>cb\<in>set cbs. \<not> is_trigger env (map_tbl s ! i) (key_code cb)
            \<and> key_event cb \<noteq> KeyPress \<and> key_event cb \<noteq> ButtonPress"
    and "observed (run env s (p # cbs)) r" and "key_event r = KeyRelease"
    and "is_trigger env (map_tbl s ! i) (key_code r)"
    and "tv_ok (tod p i)" and "tv_ok (tod r i)" and "tv_ok (timeout s)"
    and "usecs (tod r i) - usecs (tod p i) < usecs (timeout s)"
  shows "rule_reqs env (run env s (p # cbs)) r i
           = map (\<lambda>k. XTestFakeKeyEvent k True) (to_keys (map_tbl s ! i))
             @ map (\<lambda>k. XTestFakeKeyEvent k False) (to_keys (map_tbl s ! i)) @ [XFlush]
       \<and> snd (intercept env (run env s (p # cbs)) r)
           = concat (map (rule_reqs env (run env s (p # cbs)) r) [0..<i])
             @ (map (\<lambda>k. XTestFakeKeyEvent k True) (to_keys (map_tbl s ! i))
                @ map (\<lambda>k. XTestFakeKeyEvent k False) (to_keys (map_tbl s ! i)) @ [XFlush])
             @ concat (map (rule_reqs env (run env s (p # cbs)) r) [Suc i..<length (map_tbl s)])
             @ [XkbLockGroup (intended_group (fst (intercept env (run env s (p # cbs)) r)))]"
proof -
  let ?s1 = "fst (intercept env s p)"
  let ?s2 = "run env ?s1 cbs"
  let ?km = "map_tbl s ! i"
  have i1: "i < length (map_tbl ?s1)"
    using assms(1) by (simp add: step_static)
  have t1: "\<forall>c. is_trigger env (map_tbl ?s1 ! i) c = is_trigger env ?km c"
    using assms(1) by (simp add: step_rule km_next_static)
  have k1: "map_tbl ?s1 ! i = ?km\<lparr>pressed := True, down_at := tod p i, used := False\<rparr>"
    using assms(1-6) by (simp add: step_press)
  have k2: "map_tbl ?s2 ! i = ?km\<lparr>pressed := True, down_at := tod p i, used := False\<rparr>"
    using run_untouched [where i = i and s = "?s1" and env = env and cbs = cbs] i1 t1 k1 assms(7)
    by simp
  have n2: "length (map_tbl ?s2) = length (map_tbl s)" and m2: "timeout ?s2 = timeout s"
    by (simp_all add: run_static step_static)
  have "timercmp_lt (timersub (tod r i) (tod p i)) (timeout s)"
    using assms(11-14) by (simp add: timercmp_timersub)
  then have tap: "is_tap (timeout ?s2) (map_tbl ?s2 ! i) (key_event r) (tod r i)"
    using assms(9) by (simp add: is_tap_def k2 m2 KeyRelease_def KeyPress_def)
  have o2: "observed ?s2 r"
    using assms(8) by simp
  have r2: "rule_reqs env ?s2 r i = tap_reqs (to_keys ?km)"
    using o2 tap assms(10) by (simp add: rule_reqs_eq km_reqs_def k2 is_trigger_def)
  have "snd (intercept env ?s2 r)
          = concat (map (rule_reqs env ?s2 r) [0..<length (map_tbl s)])
            @ [XkbLockGroup (intended_group (fst (intercept env ?s2 r)))]"
    using o2 by (simp add: intercept_observed n2)
  then have "snd (intercept env ?s2 r)
          = concat (map (rule_reqs env ?s2 r) [0..<i]) @ tap_reqs (to_keys ?km)
            @ concat (map (rule_reqs env ?s2 r) [Suc i..<length (map_tbl s)])
            @ [XkbLockGroup (intended_group (fst (intercept env ?s2 r)))]"
    using assms(1) r2 by (simp add: upt_split [of i "length (map_tbl s)"])
  then show ?thesis
    using r2 by (simp add: tap_reqs_def)
qed

theorem clean_tap_injects_sequence_witness:
  "snd (intercept ex_env
          (run ex_env (ex_self\<lparr>map_tbl := [ex_rule\<lparr>from_ks := 0xffeb, to_keys := [37, 9]\<rparr>]\<rparr>)
             [ex_cb KeyPress 133 0, ex_cb KeyRelease 38 50000])
          (ex_cb KeyRelease 133 100000))
     = [XTestFakeKeyEvent 37 True, XTestFakeKeyEvent 9 True,
        XTestFakeKeyEvent 37 False, XTestFakeKeyEvent 9 False, XFlush, XkbLockGroup 0]"
  using clean_tap_injects_sequence [where i = 0
      and s = "ex_self\<lparr>map_tbl := [ex_rule\<lparr>from_ks := 0xffeb, to_keys := [37, 9]\<rparr>]\<rparr>"
      and env = ex_env and p = "ex_cb KeyPress 133 0" and cbs = "[ex_cb KeyRelease 38 50000]"
      and r = "ex_cb KeyRelease 133 100000"]
  by (simp add: ex_defs eval_defs)

text \<open>
  C1 as stated fails when a mouse button went down before the trigger: the button press,
  the press of Control\_L and its release 100 ms later are all observed, nothing comes
  between press and release, and the release sends the group lock only.
\<close>

theorem tap_with_mouse_held_counterexample:
  "observed ex_self (ex_cb ButtonPress 1 0)
   \<and> observed (run ex_env ex_self [ex_cb ButtonPress 1 0]) (ex_cb KeyPress 37 1000000)
   \<and> observed (run ex_env ex_self [ex_cb ButtonPress 1 0, ex_cb KeyPress 37 1000000])
        (ex_cb KeyRelease 37 1100000)
   \<and> is_trigger ex_env ex_rule 37
   \<and> usecs (tod (ex_cb KeyRelease 37 1100000) 0) - usecs (tod (ex_cb KeyPress 37 1000000) 0)
       < usecs (timeout ex_self)
   \<and> snd (intercept ex_env
            (run ex_env ex_self [ex_cb ButtonPress 1 0, ex_cb KeyPress 37 1000000])
            (ex_cb KeyRelease 37 1100000))
       = [XkbLockGroup 0]"
  by (simp add: ex_defs eval_defs)

text \<open>
  C3. The second loop of \<^verbatim>\<open>intercept\<close> compares the code of the event with the trigger
  before it looks at the kind of the event, and a button event carries the number of the
  button where a key event carries the key code. Take the rule \<^verbatim>\<open>Escape=Control_L\<close>
  (Escape is code 9) and press button 9 between the press of Escape and its release. The
  button press is observed, is handled as the release of the trigger and injects the
  substitution; the rule is not marked used, and the release of Escape, 100 ms after its
  press, injects the substitution a second time.
\<close>

theorem button_on_trigger_code_taps:
  "parse_mapping ex_env ''Escape=Control_L'' = [ex_rule\<lparr>from_ks := 0xff1b, to_keys := [37]\<rparr>]
   \<and> observed (run ex_env (ex_self\<lparr>map_tbl := parse_mapping ex_env ''Escape=Control_L''\<rparr>)
                 [ex_cb KeyPress 9 0])
        (ex_cb ButtonPress 9 50000)
   \<and> snd (intercept ex_env
            (run ex_env (ex_self\<lparr>map_tbl := parse_mapping ex_env ''Escape=Control_L''\<rparr>)
               [ex_cb KeyPress 9 0])
            (ex_cb ButtonPress 9 50000))
       = [XTestFakeKeyEvent 37 True, XTestFakeKeyEvent 37 False, XFlush, XkbLockGroup 0]
   \<and> \<not> used (map_tbl
        (run ex_env (ex_self\<lparr>map_tbl := parse_mapping ex_env ''Escape=Control_L''\<rparr>)
           [ex_cb KeyPress 9 0, ex_cb ButtonPress 9 50000]) ! 0)
   \<and> snd (intercept ex_env
            (run ex_env (ex_self\<lparr>map_tbl := parse_mapping ex_env ''Escape=Control_L''\<rparr>)
               [ex_cb KeyPress 9 0, ex_cb ButtonPress 9 50000])
            (ex_cb KeyRelease 9 100000))
       = [XTestFakeKeyEvent 37 True, XTestFakeKeyEvent 37 False, XFlush, XkbLockGroup 0]"
  by (simp add: parse_mapping_def parse_token_def keysym_from_string_def
      keysym_from_keycode_def calloc_KeyMap_t_def NoSymbol_def ex_defs eval_defs)

text \<open>
  A press on any other code does disqualify. After an observed press \<open>p\<close> of the trigger
  of rule \<open>i\<close>, let \<open>q\<close> be an observed key or button press whose code is not the
  trigger's, with no release of the trigger among the events \<open>cbs1\<close> before it and
  \<open>cbs2\<close> after it. Then the rule is marked used once \<open>q\<close> is processed, and whatever
  the event \<open>r\<close> that follows and whatever its time, no request is sent for the rule.
\<close>

lemma other_press_disqualifies:
  assumes "i < length (map_tbl s)"
    and "observed s p" and "key_event p = KeyPress"
    and "is_trigger env (map_tbl s ! i) (key_code p)"
    and "\<forall>cb\<in>set cbs1. is_trigger env (map_tbl s ! i) (key_code cb) \<longrightarrow> key_event cb = KeyPress"
    and "observed (run env s (p # cbs1)) q"
    and "key_event q = KeyPress \<or> key_event q = ButtonPress"
    and "\<not> is_trigger env (map_tbl s ! i) (key_code q)"
    and "\<forall>cb\<in>set cbs2. is_trigger env (map_tbl s ! i) (key_code cb) \<longrightarrow> key_event cb = KeyPress"
  shows "used (map_tbl (run env s (p # cbs1 @ [q])) ! i)
       \<and> rule_reqs env (run env s (p # cbs1 @ q # cbs2)) r i = []"
proof -
  let ?s1 = "fst (intercept env s p)"
  let ?s2 = "run env ?s1 cbs1"
  let ?s3 = "fst (intercept env ?s2 q)"
  have i1: "i < length (map_tbl ?s1)"
    using assms(1) by (simp add: step_static)
  have t1: "\<forall>c. is_trigger env (map_tbl ?s1 ! i) c = is_trigger env (map_tbl s ! i) c"
    using assms(1) by (simp add: step_rule km_next_static)
  have p1: "pressed (map_tbl ?s1 ! i)"
    using assms(1-4) by (simp add: step_press)
  have i2: "i < length (map_tbl ?s2)"
    using i1 by (simp add: run_static)
  have t2: "\<forall>c. is_trigger env (map_tbl ?s2 ! i) c = is_trigger env (map_tbl s ! i) c"
    using i1 t1 by (simp add: run_rule_static)
  have p2: "pressed (map_tbl ?s2 ! i)"
    using run_pressed_sticky [where i = i and s = "?s1" and env = env and cbs = cbs1] i1 p1 t1 assms(5) by simp
  have o2: "observed ?s2 q"
    using assms(6) by simp
  have k3: "pressed (map_tbl ?s3 ! i) \<and> used (map_tbl ?s3 ! i)"
    using i2 o2 p2 t2 assms(7,8) by (auto simp: step_rule km_next_def)
  have i3: "i < length (map_tbl ?s3)"
    using i2 by (simp add: step_static)
  have t3: "\<forall>c. is_trigger env (map_tbl ?s3 ! i) c = is_trigger env (map_tbl s ! i) c"
    using i2 t2 by (simp add: step_rule km_next_static)
  have "used (map_tbl (run env ?s3 cbs2) ! i)"
    using run_used_sticky [where i = i and s = "?s3" and env = env and cbs = cbs2] i3 k3 t3 assms(9) by simp
  then show ?thesis
    using k3 by (simp add: run_append rule_reqs_used)
qed

lemma other_press_disqualifies_witness:
  "used (map_tbl (run ex_env ex_self [ex_cb KeyPress 37 0, ex_cb KeyPress 38 50000]) ! 0)
   \<and> rule_reqs ex_env
        (run ex_env ex_self
           [ex_cb KeyPress 37 0, ex_cb KeyPress 38 50000, ex_cb KeyRelease 38 60000])
        (ex_cb KeyRelease 37 100000) 0 = []
   \<and> snd (intercept ex_env
        (run ex_env ex_self
           [ex_cb KeyPress 37 0, ex_cb KeyPress 38 50000, ex_cb KeyRelease 38 60000])
        (ex_cb KeyRelease 37 100000)) = [XkbLockGroup 0]"
  using other_press_disqualifies [where i = 0 and s = ex_self and env = ex_env
      and p = "ex_cb KeyPress 37 0" and ?cbs1.0 = "[]" and q = "ex_cb KeyPress 38 50000"
      and ?cbs2.0 = "[ex_cb KeyRelease 38 60000]" and r = "ex_cb KeyRelease 37 100000"]
  by (simp add: ex_defs eval_defs)

text \<open>
  C4. After an observed press \<open>p\<close> of the trigger of rule \<open>i\<close> and events \<open>cbs\<close> on other
  codes, an event \<open>r\<close> whose clock reading is at least the timeout after that of \<open>p\<close>
  sends no request for the rule; the witness is a release exactly 500 ms after the press.
\<close>

theorem slow_release_never_taps:
  assumes "i < length (map_tbl s)"
    and "observed s p" and "key_event p = KeyPress"
    and "is_trigger env (map_tbl s ! i) (key_code p)"
    and "\<forall>cb\<in>set cbs. \<not> is_trigger env (map_tbl s ! i) (key_code cb)"
    and "tv_ok (tod p i)" and "tv_ok (tod r i)" and "tv_ok (timeout s)"
    and "usecs (timeout s) \<le> usecs (tod r i) - usecs (tod p i)"
  shows "rule_reqs env (run env s (p # cbs)) r i = []"
proof -
  let ?s1 = "fst (intercept env s p)"
  let ?s2 = "run env ?s1 cbs"
  have i1: "i < length (map_tbl ?s1)"
    using assms(1) by (simp add: step_static)
  have t1: "\<forall>c. is_trigger env (map_tbl ?s1 ! i) c = is_trigger env (map_tbl s ! i) c"
    using assms(1) by (simp add: step_rule km_next_static)
  have d1: "down_at (map_tbl ?s1 ! i) = tod p i"
    using assms(1-4) by (simp add: step_press)
  have d2: "down_at (map_tbl ?s2 ! i) = tod p i"
    using run_down_at [where i = i and s = "?s1" and env = env and cbs = cbs] i1 t1 d1 assms(5) by simp
  have "\<not> timercmp_lt (timersub (tod r i) (tod p i)) (timeout s)"
    using assms(6-9) by (simp add: timercmp_timersub)
  then have "\<not> is_tap (timeout ?s2) (map_tbl ?s2 ! i) (key_event r) (tod r i)"
    using d2 by (simp add: is_tap_def run_static step_static)
  then show ?thesis
    by (simp add: rule_reqs_eq km_reqs_def)
qed

theorem slow_release_never_taps_witness:
  "rule_reqs ex_env (run ex_env ex_self [ex_cb KeyPress 37 0])
     (ex_cb KeyRelease 37 500000) 0 = []
   \<and> snd (intercept ex_env (run ex_env ex_self [ex_cb KeyPress 37 0])
          (ex_cb KeyRelease 37 500000)) = [XkbLockGroup 0]"
  using slow_release_never_taps [where i = 0 and s = ex_self and env = ex_env
      and p = "ex_cb KeyPress 37 0" and cbs = "[]" and r = "ex_cb KeyRelease 37 500000"]
  by (simp add: ex_defs eval_defs)

text \<open>
  C5. An observed press of the trigger of rule \<open>i\<close> while \<^verbatim>\<open>mouse_pressed\<close> is set marks
  the rule used at once, and as long as no release of the trigger came in between, no
  event \<open>r\<close> sends a request for the rule, however soon it comes.
\<close>

theorem press_with_mouse_held_never_taps:
  assumes "i < length (map_tbl s)"
    and "mouse_pressed s"
    and "observed s p" and "key_event p = KeyPress"
    and "is_trigger env (map_tbl s ! i) (key_code p)"
    and "\<forall>cb\<in>set cbs. is_trigger env (map_tbl s ! i) (key_code cb) \<longrightarrow> key_event cb = KeyPress"
  shows "used (map_tbl (fst (intercept env s p)) ! i)
       \<and> rule_reqs env (run env s (p # cbs)) r i = []"
proof -
  let ?s1 = "fst (intercept env s p)"
  have i1: "i < length (map_tbl ?s1)"
    using assms(1) by (simp add: step_static)
  have k1: "pressed (map_tbl ?s1 ! i) \<and> used (map_tbl ?s1 ! i)"
    using assms(1-5) by (simp add: step_press)
  have t1: "\<forall>c. is_trigger env (map_tbl ?s1 ! i) c = is_trigger env (map_tbl s ! i) c"
    using assms(1) by (simp add: step_rule km_next_static)
  have "used (map_tbl (run env ?s1 cbs) ! i)"
    using run_used_sticky [where i = i and s = "?s1" and env = env and cbs = cbs] i1 k1 t1 assms(6) by simp
  then show ?thesis
    using k1 by (simp add: rule_reqs_used)
qed

theorem press_with_mouse_held_never_taps_witness:
  "used (map_tbl (fst (intercept ex_env (ex_self\<lparr>mouse_pressed := True\<rparr>)
                         (ex_cb KeyPress 37 0))) ! 0)
   \<and> rule_reqs ex_env
        (run ex_env (ex_self\<lparr>mouse_pressed := True\<rparr>)
           [ex_cb KeyPress 37 0, ex_cb KeyRelease 38 50000])
        (ex_cb KeyRelease 37 100000) 0 = []
   \<and> snd (intercept ex_env
        (run ex_env (ex_self\<lparr>mouse_pressed := True\<rparr>)
           [ex_cb KeyPress 37 0, ex_cb KeyRelease 38 50000])
        (ex_cb KeyRelease 37 100000)) = [XkbLockGroup 0]"
  using press_with_mouse_held_never_taps [where i = 0 and s = "ex_self\<lparr>mouse_pressed := True\<rparr>"
      and env = ex_env and p = "ex_cb KeyPress 37 0" and cbs = "[ex_cb KeyRelease 38 50000]"
      and r = "ex_cb KeyRelease 37 100000"]
  by (simp add: ex_defs eval_defs)

text \<open>
  C8, as amended. On a confirmed tap \<^verbatim>\<open>handle_key\<close> sends the presses of all codes, then
  the releases of all codes, then one flush: no flush separates the two passes.
\<close>

theorem tap_sends_one_flush:
  assumes "key_event' \<noteq> KeyPress"
    and "\<not> used key"
    and "timercmp_lt (timersub now (down_at key)) (timeout self)"
  shows "snd (snd (handle_key self key m key_event' now))
           = map (\<lambda>k. XTestFakeKeyEvent k True) (to_keys key)
             @ map (\<lambda>k. XTestFakeKeyEvent k False) (to_keys key) @ [XFlush]"
  using assms by (simp add: handle_key_eq is_tap_def tap_reqs_def)

theorem tap_sends_one_flush_witness:
  "snd (snd (handle_key ex_self (ex_rule\<lparr>to_keys := [37, 9]\<rparr>) False KeyRelease
               \<lparr>tv_sec = 0, tv_usec = 100000\<rparr>))
     = [XTestFakeKeyEvent 37 True, XTestFakeKeyEvent 9 True,
        XTestFakeKeyEvent 37 False, XTestFakeKeyEvent 9 False, XFlush]"
  using tap_sends_one_flush [of KeyRelease "ex_rule\<lparr>to_keys := [37, 9]\<rparr>"
      "\<lparr>tv_sec = 0, tv_usec = 100000\<rparr>" ex_self False]
  by (simp add: ex_defs timersub_def timercmp_lt_def)

text \<open>
  C8 as stated fails: the tap of the default rule sends a press, a release and a single
  flush, not a flush after each pass.
\<close>

theorem tap_two_flushes_counterexample:
  "snd (snd (handle_key ex_self ex_rule False KeyRelease \<lparr>tv_sec = 0, tv_usec = 100000\<rparr>))
     = [XTestFakeKeyEvent 9 True, XTestFakeKeyEvent 9 False, XFlush]
   \<and> snd (snd (handle_key ex_self ex_rule False KeyRelease \<lparr>tv_sec = 0, tv_usec = 100000\<rparr>))
     \<noteq> [XTestFakeKeyEvent 9 True, XFlush, XTestFakeKeyEvent 9 False, XFlush]
   \<and> count_list
        (snd (snd (handle_key ex_self ex_rule False KeyRelease \<lparr>tv_sec = 0, tv_usec = 100000\<rparr>)))
        XFlush = 1"
  by (simp add: ex_defs eval_defs)

text \<open>
  C9. In a state reached from one where no mouse button is held, an observed press of the
  trigger of a rule that is already pressed changes only \<^verbatim>\<open>down_at\<close>, which becomes the
  time of this press: \<^verbatim>\<open>pressed\<close> stays set and \<^verbatim>\<open>used\<close> is as it was. The event that
  follows is therefore timed against this press: it sends the substitution sequence
  exactly when it is an observed event of the trigger other than a press, the rule is not
  used, and its time less that of this press is below the timeout.
\<close>

theorem repeated_press_restarts_clock:
  assumes "\<not> mouse_pressed s0"
    and "i < length (map_tbl s0)"
    and "pressed (map_tbl (run env s0 cbs) ! i)"
    and "observed (run env s0 cbs) p" and "key_event p = KeyPress"
    and "is_trigger env (map_tbl s0 ! i) (key_code p)"
  shows "map_tbl (fst (intercept env (run env s0 cbs) p)) ! i
           = (map_tbl (run env s0 cbs) ! i)\<lparr>down_at := tod p i\<rparr>
       \<and> rule_reqs env (fst (intercept env (run env s0 cbs) p)) r i
           = (if observed (fst (intercept env (run env s0 cbs) p)) r
                 \<and> is_trigger env (map_tbl s0 ! i) (key_code r) \<and> key_event r \<noteq> KeyPress
                 \<and> \<not> used (map_tbl (run env s0 cbs) ! i)
                 \<and> timercmp_lt (timersub (tod r i) (tod p i)) (timeout s0)
              then tap_reqs (to_keys (map_tbl s0 ! i)) else [])"
proof -
  let ?s = "run env s0 cbs"
  let ?s' = "fst (intercept env ?s p)"
  let ?km = "map_tbl ?s ! i"
  have i1: "i < length (map_tbl ?s)"
    using assms(2) by (simp add: run_static)
  have t1: "\<forall>c. is_trigger env ?km c = is_trigger env (map_tbl s0 ! i) c"
    and k1: "to_keys ?km = to_keys (map_tbl s0 ! i)"
    using assms(2) by (simp_all add: run_rule_static)
  have "mouse_inv s0"
    using assms(1) by (simp add: mouse_inv_def)
  then have "mouse_inv ?s"
    by (rule mouse_inv_run)
  then have u: "mouse_pressed ?s \<longrightarrow> used ?km"
    using i1 assms(3) by (simp add: mouse_inv_def)
  have "map_tbl ?s' ! i
          = ?km\<lparr>pressed := True, down_at := tod p i, used := used ?km \<or> mouse_pressed ?s\<rparr>"
    using i1 assms(4-6) t1 by (simp add: step_press)
  also have "\<dots> = ?km\<lparr>down_at := tod p i\<rparr>"
    using u assms(3) by (cases ?km) auto
  finally have n: "map_tbl ?s' ! i = ?km\<lparr>down_at := tod p i\<rparr>" .
  have "timeout ?s' = timeout s0"
    by (simp add: step_static run_static)
  then have "rule_reqs env ?s' r i
           = (if observed ?s' r
                 \<and> is_trigger env (map_tbl s0 ! i) (key_code r) \<and> key_event r \<noteq> KeyPress
                 \<and> \<not> used ?km
                 \<and> timercmp_lt (timersub (tod r i) (tod p i)) (timeout s0)
              then tap_reqs (to_keys (map_tbl s0 ! i)) else [])"
    using t1 k1 by (simp add: rule_reqs_eq km_reqs_def is_tap_def n is_trigger_upd)
  then show ?thesis
    using n by simp
qed

theorem repeated_press_restarts_clock_witness:
  "down_at (map_tbl (run ex_env ex_self [ex_cb KeyPress 37 0, ex_cb KeyPress 37 100000]) ! 0)
     = \<lparr>tv_sec = 1000, tv_usec = 100000\<rparr>
   \<and> \<not> used (map_tbl (run ex_env ex_self [ex_cb KeyPress 37 0, ex_cb KeyPress 37 100000]) ! 0)
   \<and> rule_reqs ex_env (run ex_env ex_self [ex_cb KeyPress 37 0, ex_cb KeyPress 37 100000])
        (ex_cb KeyRelease 37 550000) 0
       = [XTestFakeKeyEvent 9 True, XTestFakeKeyEvent 9 False, XFlush]"
  using repeated_press_restarts_clock [where ?s0.0 = ex_self and i = 0 and env = ex_env
      and cbs = "[ex_cb KeyPress 37 0]" and p = "ex_cb KeyPress 37 100000"
      and r = "ex_cb KeyRelease 37 550000"]
  by (simp add: ex_defs eval_defs)

section \<open>The keyboard group\<close>

text \<open>
  C6, as amended. For every event that is not consumed by the ledger, \<^verbatim>\<open>intercept\<close>
  takes the group read on entry as the intended group when it differs from
  \<^verbatim>\<open>previous_group\<close>, sends \<^verbatim>\<open>XkbLockGroup\<close> with the intended group as its last request,
  and stores the group read after it in \<^verbatim>\<open>previous_group\<close>.
\<close>

theorem group_tracked_unless_echo:
  assumes "category cb = XRecordFromServer \<longrightarrow> key_code cb \<notin> set (generated self)"
  shows "intended_group (fst (intercept env self cb))
           = (if previous_group self \<noteq> group_on_entry cb then group_on_entry cb
              else intended_group self)
       \<and> previous_group (fst (intercept env self cb)) = group_after_lock cb
       \<and> snd (intercept env self cb) \<noteq> []
       \<and> last (snd (intercept env self cb))
           = XkbLockGroup (intended_group (fst (intercept env self cb)))"
proof (cases "category cb = XRecordFromServer")
  case True
  with assms have "observed self cb" by (simp add: observed_def)
  then show ?thesis by (simp add: intercept_observed)
next
  case False
  then show ?thesis by (simp add: intercept_not_server)
qed

theorem group_tracked_unless_echo_witness:
  "intended_group (fst (intercept ex_env ex_self (ex_cb KeyPress 38 0\<lparr>group_on_entry := 1, group_after_lock := 1\<rparr>))) = 1
   \<and> previous_group (fst (intercept ex_env ex_self (ex_cb KeyPress 38 0\<lparr>group_on_entry := 1, group_after_lock := 1\<rparr>))) = 1
   \<and> snd (intercept ex_env ex_self (ex_cb KeyPress 38 0\<lparr>group_on_entry := 1, group_after_lock := 1\<rparr>)) = [XkbLockGroup 1]"
  using group_tracked_unless_echo [of "ex_cb KeyPress 38 0\<lparr>group_on_entry := 1, group_after_lock := 1\<rparr>" ex_self ex_env]
  by (simp add: ex_defs eval_defs)

text \<open>
  C6 as stated fails for an event consumed by the ledger: the group read on entry (1)
  differs from \<^verbatim>\<open>previous_group\<close> (0), and \<^verbatim>\<open>intercept\<close> sends no request and leaves
  both groups at 0.
\<close>

theorem group_skipped_on_echo:
  "snd (intercept ex_env (ex_self\<lparr>generated := [9]\<rparr>)
          (ex_cb KeyPress 9 0\<lparr>group_on_entry := 1, group_after_lock := 1\<rparr>)) = []
   \<and> previous_group (ex_self\<lparr>generated := [9]\<rparr>)
       \<noteq> group_on_entry (ex_cb KeyPress 9 0\<lparr>group_on_entry := 1, group_after_lock := 1\<rparr>)
   \<and> intended_group (fst (intercept ex_env (ex_self\<lparr>generated := [9]\<rparr>)
          (ex_cb KeyPress 9 0\<lparr>group_on_entry := 1, group_after_lock := 1\<rparr>))) = 0
   \<and> previous_group (fst (intercept ex_env (ex_self\<lparr>generated := [9]\<rparr>)
          (ex_cb KeyPress 9 0\<lparr>group_on_entry := 1, group_after_lock := 1\<rparr>))) = 0"
  by (simp add: ex_defs eval_defs)

section \<open>Parsing the mapping\<close>

lemma set_timeout_ok:
  assumes "set_timeout ms = Some tv"
  shows "tv_ok tv \<and> usecs tv = ms * 1000"
proof -
  have tv: "tv = \<lparr>tv_sec = ms div 1000, tv_usec = (ms mod 1000) * 1000\<rparr>"
    using assms by (auto simp: set_timeout_def split: if_splits)
  have "ms * 1000 = (ms div 1000 * 1000 + ms mod 1000) * 1000"
    by simp
  also have "\<dots> = ms div 1000 * 1000000 + ms mod 1000 * 1000"
    by (simp only: distrib_right mult.assoc)
  finally have u: "ms div 1000 * 1000000 + ms mod 1000 * 1000 = ms * 1000"
    by simp
  have "0 \<le> ms mod 1000" and "ms mod 1000 < 1000"
    by simp_all
  then have "0 \<le> ms mod 1000 * 1000" and "ms mod 1000 * 1000 < 1000000"
    by simp_all
  then show ?thesis
    using u by (simp add: tv tv_ok_def usecs_def)
qed

lemma strsep_none: "d \<notin> set s \<Longrightarrow> strsep d s = (s, None)"
  by (induction s) auto

lemma strsep_first: "d \<notin> set tok \<Longrightarrow> strsep d (tok @ d # rest) = (tok, Some rest)"
  by (induction tok) auto

text \<open>A token without \<^verbatim>\<open>=\<close> gives no rule, and whatever a token gives, the loop goes on
  with the rest of the string.\<close>

lemma parse_token_no_equals: "CHR ''='' \<notin> set token \<Longrightarrow> parse_token env token = None"
  by (simp add: parse_token_def strsep_none)

lemma mapping_loop_continues:
  assumes "CHR '';'' \<notin> set token"
  shows "mapping_loop env (Some (token @ CHR '';'' # rest)) rval
           = mapping_loop env (Some rest)
               (case parse_token env token of None \<Rightarrow> rval | Some nkm \<Rightarrow> rval @ [nkm])"
  using assms by (simp add: strsep_first split: option.splits)

text \<open>
  C7. The entries \<^verbatim>\<open>Foo=Escape\<close> and \<^verbatim>\<open>#300=Escape\<close> have a trigger that does not
  resolve (no key symbol \<^verbatim>\<open>Foo\<close>, no hardware code 300). \<^verbatim>\<open>parse_token\<close> reports them
  and still returns the rule it allocated, with the trigger left at \<^verbatim>\<open>NoSymbol\<close>, and
  \<^verbatim>\<open>parse_mapping\<close> links it into the table in front of the rule of the well-formed
  entry. Such a rule is triggered by every code without a key symbol, a mouse button
  among them.
\<close>

theorem parse_mapping_keeps_unresolved_trigger:
  "XStringToKeysym ex_env ''Foo'' = NoSymbol
   \<and> parse_mapping ex_env ''Foo=Escape;Control_L=Escape''
       = [calloc_KeyMap_t\<lparr>to_keys := [9]\<rparr>, ex_rule]
   \<and> parse_mapping ex_env ''#300=Escape;Control_L=Escape''
       = [calloc_KeyMap_t\<lparr>to_keys := [9]\<rparr>, ex_rule]
   \<and> is_trigger ex_env (calloc_KeyMap_t\<lparr>to_keys := [9]\<rparr>) 1"
  by (simp add: parse_mapping_def parse_token_def keysym_from_string_def
      keysym_from_keycode_def calloc_KeyMap_t_def ex_env_def ex_rule_def NoSymbol_def
      is_trigger_def)

end
